theory Spec2Isabelle
  imports Complex_Main
begin

section \<open>Data model of the camera streaming server (src/main.py)\<close>

text \<open>
  The external collaborators (the capture device, the detection model, the JPEG encoder,
  the file system holding \<^verbatim>\<open>detection_log.json\<close>) are not part of the program. Each
  call into them is modelled by an outcome value that the caller of a model function
  supplies, one constructor per way the call can end (a raised exception included).
\<close>

datatype py_exn =
    DeviceError | ModelError | BoxError | EncodeError | IOError
  | AttributeError | TypeError | ValueError

text \<open>\<^verbatim>\<open>cv2.VideoCapture(i)\<close> followed by \<^verbatim>\<open>isOpened()\<close>: the constructor raises, or it
  returns an object that is not opened, or one that is.\<close>

datatype open_outcome = CtorRaises | Unopened | Opened

text \<open>A raw or annotated picture: the payload read from the device and the shapes drawn
  on it so far by \<^verbatim>\<open>cv2.rectangle\<close> and \<^verbatim>\<open>cv2.putText\<close>.\<close>

datatype annotation =
    Rect int int int int
  | Label string rat int int

record frame =
  pixels :: nat
  drawn :: "annotation list"

text \<open>\<^verbatim>\<open>ret, frame = cap.read()\<close>.\<close>

datatype read_outcome = ReadRaises | ReadFalse | ReadTrue frame

text \<open>The \<^verbatim>\<open>cv2.VideoCapture\<close> object held in \<^verbatim>\<open>self.camera\<close>.\<close>

record capture =
  cap_index :: int
  cap_opened :: bool

text \<open>One entry of the JSON array in \<^verbatim>\<open>detection_log.json\<close>; the keys are
  \<^verbatim>\<open>timestamp\<close>, \<^verbatim>\<open>class\<close>, \<^verbatim>\<open>confidence\<close>, \<^verbatim>\<open>camera_idx\<close>.\<close>

record detection_event =
  ev_timestamp :: string
  ev_class :: string
  ev_confidence :: rat
  ev_camera_idx :: int

text \<open>The log file: missing, present but not loadable as a JSON list, or a list of
  entries.\<close>

datatype log_file_state = Absent | Invalid | Logs "detection_event list"

text \<open>Calls made to the device layer, recorded in call order (a ghost field: the
  program never reads it).\<close>

datatype dev_call = DevOpen int | DevConfigure | DevRead | DevRelease

text \<open>
  The fields of \<^verbatim>\<open>CameraManager\<close> (\<^verbatim>\<open>camera\<close>, \<^verbatim>\<open>is_running\<close>, \<^verbatim>\<open>detection_count\<close>,
  \<^verbatim>\<open>current_camera_index\<close>), the module-level flag \<^verbatim>\<open>YOLO_AVAILABLE\<close> (the source sets
  \<^verbatim>\<open>model\<close> to \<^verbatim>\<open>None\<close> exactly when the flag is false), the log file, and the ghost
  list of device calls. The lock is an effect on interleavings only and appears in the
  interleaving model further down.
\<close>

record cam_state =
  camera :: "capture option"
  is_running :: bool
  detection_count :: int
  current_camera_index :: int
  yolo_available :: bool
  log_file :: log_file_state
  dev_calls :: "dev_call list"

text \<open>The literal messages of the source are Korean text; each is one constructor here:
  \<^verbatim>\<open>AlreadyRunning\<close> (line 81), \<^verbatim>\<open>ConnectFailed i\<close> (line 91), \<^verbatim>\<open>Started i\<close> (line 104),
  \<^verbatim>\<open>AlreadyStopped\<close> (line 109), \<^verbatim>\<open>Stopped\<close> (line 117), \<^verbatim>\<open>BadRequest\<close> (line 366).\<close>

datatype message =
    AlreadyRunning | ConnectFailed int | Started int
  | AlreadyStopped | Stopped | BadRequest

record response =
  success :: bool
  message :: message

record status =
  st_camera_on :: bool
  st_current_idx :: int
  st_yolo_available :: bool
  st_detection_count :: int

section \<open>CameraManager\<close>

definition init_state :: "bool \<Rightarrow> log_file_state \<Rightarrow> cam_state" where
  "init_state yolo file =
     \<lparr>camera = None, is_running = False, detection_count = 0,
      current_camera_index = 0, yolo_available = yolo, log_file = file,
      dev_calls = []\<rparr>"

text \<open>\<^verbatim>\<open>start\<close>, lines 77 to 104. The new object is stored in \<^verbatim>\<open>self.camera\<close> (line 86)
  before \<^verbatim>\<open>isOpened()\<close> is tested (line 88).\<close>

definition start :: "open_outcome \<Rightarrow> int \<Rightarrow> cam_state \<Rightarrow> (py_exn + response) \<times> cam_state" where
  "start oc camera_index s =
     (if is_running s then (Inr \<lparr>success = True, message = AlreadyRunning\<rparr>, s)
      else
        (case oc of
           CtorRaises \<Rightarrow>
             (Inl DeviceError, s\<lparr>dev_calls := dev_calls s @ [DevOpen camera_index]\<rparr>)
         | Unopened \<Rightarrow>
             (Inr \<lparr>success = False, message = ConnectFailed camera_index\<rparr>,
              s\<lparr>camera := Some \<lparr>cap_index = camera_index, cap_opened = False\<rparr>,
                dev_calls := dev_calls s @ [DevOpen camera_index]\<rparr>)
         | Opened \<Rightarrow>
             (Inr \<lparr>success = True, message = Started camera_index\<rparr>,
              s\<lparr>camera := Some \<lparr>cap_index = camera_index, cap_opened = True\<rparr>,
                is_running := True,
                current_camera_index := camera_index,
                dev_calls := dev_calls s @ [DevOpen camera_index, DevConfigure]\<rparr>)))"

text \<open>\<^verbatim>\<open>stop\<close>, lines 106 to 117.\<close>

definition stop :: "cam_state \<Rightarrow> response \<times> cam_state" where
  "stop s =
     (if \<not> is_running s then (\<lparr>success = True, message = AlreadyStopped\<rparr>, s)
      else
        (let s1 = s\<lparr>is_running := False\<rparr>;
             s2 = (case camera s1 of
                     None \<Rightarrow> s1
                   | Some c \<Rightarrow> s1\<lparr>camera := None, dev_calls := dev_calls s1 @ [DevRelease]\<rparr>)
         in (\<lparr>success = True, message = Stopped\<rparr>, s2)))"

text \<open>\<^verbatim>\<open>get_status\<close>, lines 184 to 190.\<close>

definition get_status :: "cam_state \<Rightarrow> status" where
  "get_status s =
     \<lparr>st_camera_on = is_running s,
      st_current_idx = current_camera_index s,
      st_yolo_available = yolo_available s,
      st_detection_count = detection_count s\<rparr>"

subsection \<open>The detection logger\<close>

text \<open>What the file system does during one \<^verbatim>\<open>log_detection\<close> call: the clock reading,
  whether opening and loading an existing file works, and how the rewrite ends (a failed
  rewrite leaves the file in the state given).\<close>

datatype write_outcome = WriteOk | WriteFails log_file_state

record log_env =
  now :: string
  read_ok :: bool
  write_res :: write_outcome

text \<open>\<^verbatim>\<open>round(confidence, 4)\<close> on exact values, ties to the even neighbour. The binary
  representation error of Python's floats is outside this model; no property below
  depends on the rounded value.\<close>

definition round4 :: "rat \<Rightarrow> rat" where
  "round4 c =
     (let n = c * 10000; f = \<lfloor>n\<rfloor>; d = n - of_int f
      in of_int (if d < 1 / 2 then f else if 1 / 2 < d then f + 1
                 else if even f then f else f + 1) / 10000)"

definition new_log :: "string \<Rightarrow> string \<Rightarrow> rat \<Rightarrow> cam_state \<Rightarrow> detection_event" where
  "new_log ts cls conf s =
     \<lparr>ev_timestamp = ts, ev_class = cls, ev_confidence = round4 conf,
      ev_camera_idx = current_camera_index s\<rparr>"

text \<open>\<^verbatim>\<open>logs[-1000:]\<close> when \<^verbatim>\<open>len(logs) > 1000\<close>.\<close>

definition truncate_logs :: "detection_event list \<Rightarrow> detection_event list" where
  "truncate_logs logs =
     (if length logs > 1000 then drop (length logs - 1000) logs else logs)"

text \<open>The body of the \<^verbatim>\<open>try\<close> in \<^verbatim>\<open>log_detection\<close> (lines 162 to 180): the exception that
  leaves it, if any, and the state reached.\<close>

definition log_detection_try ::
    "log_env \<Rightarrow> string \<Rightarrow> rat \<Rightarrow> cam_state \<Rightarrow> py_exn option \<times> cam_state" where
  "log_detection_try env cls conf s =
     (case (case log_file s of
              Absent \<Rightarrow> Inr []
            | Invalid \<Rightarrow> Inl IOError
            | Logs l \<Rightarrow> if read_ok env then Inr l else Inl IOError) of
        Inl e \<Rightarrow> (Some e, s)
      | Inr logs \<Rightarrow>
          (let logs1 = truncate_logs (logs @ [new_log (now env) cls conf s])
           in case write_res env of
                WriteFails left \<Rightarrow> (Some IOError, s\<lparr>log_file := left\<rparr>)
              | WriteOk \<Rightarrow>
                  (None, s\<lparr>log_file := Logs logs1,
                            detection_count := detection_count s + 1\<rparr>)))"

text \<open>\<^verbatim>\<open>log_detection\<close>: the bare \<^verbatim>\<open>except: pass\<close> (lines 181 and 182) drops the exception.\<close>

definition log_detection :: "log_env \<Rightarrow> string \<Rightarrow> rat \<Rightarrow> cam_state \<Rightarrow> cam_state" where
  "log_detection env cls conf s = snd (log_detection_try env cls conf s)"

subsection \<open>The detector adapter\<close>

text \<open>One box of a result as the loop body reads it (lines 143 to 145): the corner
  coordinates, the confidence and the class name.\<close>

record box =
  x1 :: int
  y1 :: int
  x2 :: int
  y2 :: int
  conf :: rat
  cls_name :: string

text \<open>Reading a box either raises before anything is drawn (\<^verbatim>\<open>box.xyxy\<close>, \<^verbatim>\<open>box.conf\<close>,
  \<^verbatim>\<open>model.names[...]\<close>), or gives the box; the \<^verbatim>\<open>log_env\<close> is what the logger meets when
  this box is logged. \<^verbatim>\<open>model(frame, conf=0.5, verbose=False)\<close> raises or returns the
  results, each with its boxes.\<close>

datatype box_outcome = BoxRaises | BoxOk box log_env

datatype detect_outcome = ModelRaises | Results "box_outcome list list"

text \<open>Lines 147 to 151: a rectangle and a label above it, drawn into the frame.\<close>

definition draw :: "box \<Rightarrow> frame \<Rightarrow> frame" where
  "draw b fr =
     fr\<lparr>drawn := drawn fr @
        [Rect (x1 b) (y1 b) (x2 b) (y2 b), Label (cls_name b) (conf b) (x1 b) (y1 b - 10)]\<rparr>"

text \<open>The inner loop over \<^verbatim>\<open>result.boxes\<close> and the outer loop over \<^verbatim>\<open>results\<close>. An
  exception ends both; the frame and the state keep what was done before it.\<close>

fun boxes_loop ::
    "box_outcome list \<Rightarrow> frame \<Rightarrow> cam_state \<Rightarrow> py_exn option \<times> frame \<times> cam_state" where
  "boxes_loop [] fr s = (None, fr, s)"
| "boxes_loop (BoxRaises # bs) fr s = (Some BoxError, fr, s)"
| "boxes_loop (BoxOk b env # bs) fr s =
     boxes_loop bs (draw b fr) (log_detection env (cls_name b) (conf b) s)"

fun results_loop ::
    "box_outcome list list \<Rightarrow> frame \<Rightarrow> cam_state \<Rightarrow> py_exn option \<times> frame \<times> cam_state" where
  "results_loop [] fr s = (None, fr, s)"
| "results_loop (r # rs) fr s =
     (case boxes_loop r fr s of
        (Some e, fr', s') \<Rightarrow> (Some e, fr', s')
      | (None, fr', s') \<Rightarrow> results_loop rs fr' s')"

text \<open>The body of the \<^verbatim>\<open>try\<close> in \<^verbatim>\<open>detect_objects\<close> (lines 140 to 153).\<close>

definition detect_objects_try ::
    "detect_outcome \<Rightarrow> frame \<Rightarrow> cam_state \<Rightarrow> py_exn option \<times> frame \<times> cam_state" where
  "detect_objects_try d fr s =
     (case d of
        ModelRaises \<Rightarrow> (Some ModelError, fr, s)
      | Results rs \<Rightarrow> results_loop rs fr s)"

text \<open>\<^verbatim>\<open>detect_objects\<close>: \<^verbatim>\<open>except: pass\<close>, then \<^verbatim>\<open>return frame\<close> (lines 154 to 156). The
  result is a sum so that "does not raise" can be stated.\<close>

definition detect_objects ::
    "detect_outcome \<Rightarrow> frame \<Rightarrow> cam_state \<Rightarrow> (py_exn + frame) \<times> cam_state" where
  "detect_objects d fr s =
     (case detect_objects_try d fr s of (_, fr', s') \<Rightarrow> (Inr fr', s'))"

subsection \<open>Frames\<close>

text \<open>\<^verbatim>\<open>cv2.imencode('.jpg', frame, ...)\<close>: raises, returns a false flag, or returns the
  bytes.\<close>

datatype encode_outcome = EncodeRaises | EncodeFalse | EncodeTrue "nat list"

text \<open>What the outside world does during one \<^verbatim>\<open>get_frame\<close> call.\<close>

record tick_env =
  read_res :: read_outcome
  detect_res :: detect_outcome
  encode_res :: "frame \<Rightarrow> encode_outcome"

text \<open>The body of the \<^verbatim>\<open>try\<close> in \<^verbatim>\<open>get_frame\<close> (lines 124 to 133). \<^verbatim>\<open>Inr None\<close> is the
  \<^verbatim>\<open>return None\<close> of line 126, or falling out of the \<^verbatim>\<open>try\<close> when \<^verbatim>\<open>imencode\<close> gives a
  false flag.\<close>

definition get_frame_try ::
    "tick_env \<Rightarrow> cam_state \<Rightarrow> (py_exn + nat list option) \<times> cam_state" where
  "get_frame_try env s =
     (let s1 = s\<lparr>dev_calls := dev_calls s @ [DevRead]\<rparr>
      in case read_res env of
           ReadRaises \<Rightarrow> (Inl DeviceError, s1)
         | ReadFalse \<Rightarrow> (Inr None, s1)
         | ReadTrue fr \<Rightarrow>
             (case (if yolo_available s1 then detect_objects (detect_res env) fr s1
                    else (Inr fr, s1)) of
                (Inl e, s2) \<Rightarrow> (Inl e, s2)
              | (Inr fr', s2) \<Rightarrow>
                  (case encode_res env fr' of
                     EncodeRaises \<Rightarrow> (Inl EncodeError, s2)
                   | EncodeFalse \<Rightarrow> (Inr None, s2)
                   | EncodeTrue bs \<Rightarrow> (Inr (Some bs), s2))))"

text \<open>\<^verbatim>\<open>get_frame\<close>, lines 119 to 136: the guard, the \<^verbatim>\<open>try\<close>, and
  \<^verbatim>\<open>except Exception: pass\<close> followed by \<^verbatim>\<open>return None\<close>.\<close>

definition get_frame ::
    "tick_env \<Rightarrow> cam_state \<Rightarrow> (py_exn + nat list option) \<times> cam_state" where
  "get_frame env s =
     (if \<not> is_running s \<or> camera s = None then (Inr None, s)
      else
        (case get_frame_try env s of
           (Inl e, s') \<Rightarrow> (Inr None, s')
         | (Inr r, s') \<Rightarrow> (Inr r, s')))"

section \<open>The device registry\<close>

text \<open>The body of the \<^verbatim>\<open>try\<close> inside the loop of \<^verbatim>\<open>get_available_cameras\<close> (lines 51 to
  56) for one index: an exception, or the list after this index.\<close>

definition probe_try ::
    "(int \<Rightarrow> open_outcome) \<Rightarrow> (int \<Rightarrow> read_outcome) \<Rightarrow> int \<Rightarrow> int list \<Rightarrow> py_exn + int list" where
  "probe_try opn rd i available_cameras =
     (case opn i of
        CtorRaises \<Rightarrow> Inl DeviceError
      | Unopened \<Rightarrow> Inr available_cameras
      | Opened \<Rightarrow>
          (case rd i of
             ReadRaises \<Rightarrow> Inl DeviceError
           | ReadFalse \<Rightarrow> Inr available_cameras
           | ReadTrue fr \<Rightarrow> Inr (available_cameras @ [i])))"

text \<open>The loop, with \<^verbatim>\<open>except: pass\<close> (lines 57 and 58) going on to the next index.\<close>

fun probe_loop ::
    "(int \<Rightarrow> open_outcome) \<Rightarrow> (int \<Rightarrow> read_outcome) \<Rightarrow> int list \<Rightarrow> int list \<Rightarrow> int list" where
  "probe_loop opn rd [] available_cameras = available_cameras"
| "probe_loop opn rd (i # rest) available_cameras =
     probe_loop opn rd rest
       (case probe_try opn rd i available_cameras of
          Inl e \<Rightarrow> available_cameras
        | Inr acc \<Rightarrow> acc)"

text \<open>\<^verbatim>\<open>get_available_cameras\<close>, lines 45 to 59, over \<^verbatim>\<open>range(4)\<close>. The result is a sum so
  that "does not raise" can be stated.\<close>

definition get_available_cameras ::
    "(int \<Rightarrow> open_outcome) \<Rightarrow> (int \<Rightarrow> read_outcome) \<Rightarrow> py_exn + int list" where
  "get_available_cameras opn rd = Inr (probe_loop opn rd [0, 1, 2, 3] [])"

text \<open>An index qualifies when the device opens and one read succeeds.\<close>

definition opens_and_reads ::
    "(int \<Rightarrow> open_outcome) \<Rightarrow> (int \<Rightarrow> read_outcome) \<Rightarrow> int \<Rightarrow> bool" where
  "opens_and_reads opn rd i =
     (opn i = Opened \<and> (case rd i of ReadTrue fr \<Rightarrow> True | _ \<Rightarrow> False))"

section \<open>Runs of session operations\<close>

text \<open>The four operations of the session, each with what the outside world does during
  the call, and their answers.\<close>

datatype op = OpStart open_outcome int | OpStop | OpGetFrame tick_env | OpGetStatus

datatype result =
    RControl "py_exn + response"
  | RFrame "py_exn + nat list option"
  | RStatus status

fun step :: "op \<Rightarrow> cam_state \<Rightarrow> result \<times> cam_state" where
  "step (OpStart oc i) s = (case start oc i s of (r, s') \<Rightarrow> (RControl r, s'))"
| "step OpStop s = (case stop s of (r, s') \<Rightarrow> (RControl (Inr r), s'))"
| "step (OpGetFrame env) s = (case get_frame env s of (r, s') \<Rightarrow> (RFrame r, s'))"
| "step OpGetStatus s = (RStatus (get_status s), s)"

fun run :: "op list \<Rightarrow> cam_state \<Rightarrow> result list \<times> cam_state" where
  "run [] s = ([], s)"
| "run (x # xs) s =
     (case step x s of (r, s') \<Rightarrow> (case run xs s' of (rs, s'') \<Rightarrow> (r # rs, s'')))"

text \<open>Logging a sequence of detections, one \<^verbatim>\<open>log_detection\<close> call after the other.\<close>

fun log_all :: "(log_env \<times> string \<times> rat) list \<Rightarrow> cam_state \<Rightarrow> cam_state" where
  "log_all [] s = s"
| "log_all ((env, cls, c) # rest) s = log_all rest (log_detection env cls c s)"

text \<open>A \<^verbatim>\<open>log_detection\<close> call goes through when an existing file loads and the rewrite
  succeeds.\<close>

definition io_ok :: "log_env \<Rightarrow> bool" where
  "io_ok env = (read_ok env \<and> write_res env = WriteOk)"

text \<open>The index named by the last answer of a start that opened a device, \<^verbatim>\<open>d\<close> when
  there is none (the spec's "index of the last successful start, or 0 initially").\<close>

fun last_started :: "result list \<Rightarrow> int \<Rightarrow> int" where
  "last_started [] d = d"
| "last_started (RControl (Inr r) # rs) d =
     (case message r of Started i \<Rightarrow> last_started rs i | _ \<Rightarrow> last_started rs d)"
| "last_started (_ # rs) d = last_started rs d"

section \<open>The control endpoint\<close>

text \<open>A parsed JSON value as Python holds it; a \<^verbatim>\<open>dict\<close> is a list of pairs with
  distinct keys.\<close>

datatype json =
    JNull | JBool bool | JInt int | JFloat rat | JStr string
  | JArr "json list" | JObj "(string \<times> json) list"

text \<open>\<^verbatim>\<open>data.get(key, default)\<close>: only a \<^verbatim>\<open>dict\<close> has the method.\<close>

definition py_get :: "json \<Rightarrow> string \<Rightarrow> json \<Rightarrow> py_exn + json" where
  "py_get d k dflt =
     (case d of
        JObj kvs \<Rightarrow> (case map_of kvs k of None \<Rightarrow> Inr dflt | Some v \<Rightarrow> Inr v)
      | _ \<Rightarrow> Inl AttributeError)"

text \<open>\<^verbatim>\<open>str.lower()\<close> on the bytes of a string: the letters A to Z move to a to z, every
  other byte stays. Python also lowers letters outside ASCII, none of them to a letter of
  \<^verbatim>\<open>on\<close> or \<^verbatim>\<open>off\<close>, so the two comparisons of \<^verbatim>\<open>control\<close> come out the same.\<close>

definition lower_char :: "char \<Rightarrow> char" where
  "lower_char c =
     (case map_of (zip ''ABCDEFGHIJKLMNOPQRSTUVWXYZ'' ''abcdefghijklmnopqrstuvwxyz'') c of
        Some d \<Rightarrow> d
      | None \<Rightarrow> c)"

definition py_lower :: "json \<Rightarrow> py_exn + string" where
  "py_lower v = (case v of JStr s \<Rightarrow> Inr (map lower_char s) | _ \<Rightarrow> Inl AttributeError)"

text \<open>\<^verbatim>\<open>control\<close>, lines 353 to 368. \<^verbatim>\<open>req\<close> is what \<^verbatim>\<open>request.get_json()\<close> gives (the
  framework's parser: a value or an exception), \<^verbatim>\<open>py_int\<close> is the builtin \<^verbatim>\<open>int\<close>, and
  \<^verbatim>\<open>oc\<close> is what the device does if the request reaches \<^verbatim>\<open>start\<close>. An \<^verbatim>\<open>Inl\<close> result is
  an exception leaving the handler.\<close>

definition control ::
    "(json \<Rightarrow> py_exn + int) \<Rightarrow> open_outcome \<Rightarrow> py_exn + json \<Rightarrow> cam_state
       \<Rightarrow> (py_exn + response) \<times> cam_state" where
  "control py_int oc req s =
     (case req of
        Inl e \<Rightarrow> (Inl e, s)
      | Inr data \<Rightarrow>
          (case py_get data ''action'' (JStr []) of
             Inl e \<Rightarrow> (Inl e, s)
           | Inr a \<Rightarrow>
               (case py_lower a of
                  Inl e \<Rightarrow> (Inl e, s)
                | Inr action \<Rightarrow>
                    if action = ''on'' then
                      (case py_get data ''camera_index'' (JInt 0) of
                         Inl e \<Rightarrow> (Inl e, s)
                       | Inr v \<Rightarrow>
                           (case py_int v of
                              Inl e \<Rightarrow> (Inl e, s)
                            | Inr idx \<Rightarrow> start oc idx s))
                    else if action = ''off'' then
                      (case stop s of (r, s') \<Rightarrow> (Inr r, s'))
                    else (Inr \<lparr>success = False, message = BadRequest\<rparr>, s))))"

section \<open>Interleavings of \<^verbatim>\<open>stop\<close> and \<^verbatim>\<open>get_frame\<close>\<close>

text \<open>
  Two threads on the one \<^verbatim>\<open>CameraManager\<close>: a stopper running \<^verbatim>\<open>stop()\<close> and a viewer
  running \<^verbatim>\<open>get_frame()\<close>. A thread advances by one statement of its method at a time; the
  position names below give the statement about to run. \<^verbatim>\<open>stop\<close> is inside
  \<^verbatim>\<open>with self.lock\<close> (line 107); \<^verbatim>\<open>get_frame\<close> (lines 119 to 136) has no
  \<^verbatim>\<open>with self.lock\<close>.
\<close>

datatype tid = Viewer | Stopper

datatype stopper_pc =
    S_acquire | S_guard | S_flag | S_test | S_release | S_clear | S_unlock | S_done

datatype viewer_pc = V_guard | V_read | V_rest | V_done

text \<open>A device read as it happened: who held the lock at that moment, and whether the
  capture object read from was still open.\<close>

record read_event =
  rd_lock_owner :: "tid option"
  rd_cap_opened :: bool

record conc =
  shared :: cam_state
  lock_owner :: "tid option"
  stopper_at :: stopper_pc
  viewer_at :: viewer_pc
  reads :: "read_event list"

definition conc_init :: "cam_state \<Rightarrow> conc" where
  "conc_init s =
     \<lparr>shared = s, lock_owner = None, stopper_at = S_acquire, viewer_at = V_guard,
      reads = []\<rparr>"

text \<open>One statement of \<^verbatim>\<open>stop\<close>: line 107 (blocks while the lock is taken), 108, 111,
  112, 113, 114, and leaving the \<^verbatim>\<open>with\<close> block.\<close>

definition stopper_step :: "conc \<Rightarrow> conc" where
  "stopper_step c =
     (let s = shared c in
      case stopper_at c of
        S_acquire \<Rightarrow>
          (if lock_owner c = None
           then c\<lparr>lock_owner := Some Stopper, stopper_at := S_guard\<rparr> else c)
      | S_guard \<Rightarrow>
          (if \<not> is_running s then c\<lparr>stopper_at := S_unlock\<rparr> else c\<lparr>stopper_at := S_flag\<rparr>)
      | S_flag \<Rightarrow> c\<lparr>shared := s\<lparr>is_running := False\<rparr>, stopper_at := S_test\<rparr>
      | S_test \<Rightarrow>
          (if camera s = None then c\<lparr>stopper_at := S_unlock\<rparr> else c\<lparr>stopper_at := S_release\<rparr>)
      | S_release \<Rightarrow>
          c\<lparr>shared := s\<lparr>camera := map_option (\<lambda>cap. cap\<lparr>cap_opened := False\<rparr>) (camera s),
                         dev_calls := dev_calls s @ [DevRelease]\<rparr>,
            stopper_at := S_clear\<rparr>
      | S_clear \<Rightarrow> c\<lparr>shared := s\<lparr>camera := None\<rparr>, stopper_at := S_unlock\<rparr>
      | S_unlock \<Rightarrow> c\<lparr>lock_owner := None, stopper_at := S_done\<rparr>
      | S_done \<Rightarrow> c)"

text \<open>One statement of \<^verbatim>\<open>get_frame\<close>: the guard of line 120, the read of line 124 (on
  \<^verbatim>\<open>None\<close> the attribute error is caught by line 134), and the rest of the method, which
  does not touch the device. No statement looks at the lock.\<close>

definition viewer_step :: "conc \<Rightarrow> conc" where
  "viewer_step c =
     (let s = shared c in
      case viewer_at c of
        V_guard \<Rightarrow>
          (if \<not> is_running s \<or> camera s = None then c\<lparr>viewer_at := V_done\<rparr>
           else c\<lparr>viewer_at := V_read\<rparr>)
      | V_read \<Rightarrow>
          (case camera s of
             None \<Rightarrow> c\<lparr>viewer_at := V_done\<rparr>
           | Some cap \<Rightarrow>
               c\<lparr>shared := s\<lparr>dev_calls := dev_calls s @ [DevRead]\<rparr>,
                 reads := reads c @
                   [\<lparr>rd_lock_owner = lock_owner c, rd_cap_opened = cap_opened cap\<rparr>],
                 viewer_at := V_rest\<rparr>)
      | V_rest \<Rightarrow> c\<lparr>viewer_at := V_done\<rparr>
      | V_done \<Rightarrow> c)"

fun conc_step :: "tid \<Rightarrow> conc \<Rightarrow> conc" where
  "conc_step Viewer c = viewer_step c"
| "conc_step Stopper c = stopper_step c"

text \<open>A schedule is the order in which the threads get to run a statement.\<close>

fun conc_run :: "tid list \<Rightarrow> conc \<Rightarrow> conc" where
  "conc_run [] c = c"
| "conc_run (t # ts) c = conc_run ts (conc_step t c)"

section \<open>Notions used in the statements\<close>

text \<open>The session part of the state: handle, running flag, index and detector flag.\<close>

definition same_session :: "cam_state \<Rightarrow> cam_state \<Rightarrow> bool" where
  "same_session s s' =
     (camera s' = camera s \<and> is_running s' = is_running s \<and>
      current_camera_index s' = current_camera_index s \<and>
      yolo_available s' = yolo_available s)"

text \<open>The entries \<^verbatim>\<open>log_detection\<close> starts from: those of the file, none when it is
  missing.\<close>

definition stored :: "log_file_state \<Rightarrow> detection_event list" where
  "stored f = (case f of Logs l \<Rightarrow> l | _ \<Rightarrow> [])"

text \<open>The entry written for one logged detection.\<close>

definition event_of :: "cam_state \<Rightarrow> log_env \<times> string \<times> rat \<Rightarrow> detection_event" where
  "event_of s x = (case x of (env, cls, c) \<Rightarrow> new_log (now env) cls c s)"

text \<open>What \<^verbatim>\<open>imencode\<close> gives for a frame: the bytes, or nothing when it raises or
  returns a false flag.\<close>

definition encoded :: "encode_outcome \<Rightarrow> nat list option" where
  "encoded r = (case r of EncodeTrue bs \<Rightarrow> Some bs | _ \<Rightarrow> None)"

subsection \<open>Sample surroundings for running the model\<close>

text \<open>An encoder that succeeds, a machine on which only camera 1 opens, a device that
  always delivers a blank picture, a stand-in for the builtin \<^verbatim>\<open>int\<close> (exact on integers,
  booleans and fractions, which it truncates; it rejects every string, where the builtin
  parses numerals, and no example below reaches it with a string), an entry left in the
  log by an earlier run, a file system without faults and one with faults, and a session
  started on camera 0.\<close>

definition sample_encode :: "frame \<Rightarrow> encode_outcome" where
  "sample_encode fr = EncodeTrue [pixels fr, length (drawn fr)]"

definition only_index_1 :: "int \<Rightarrow> open_outcome" where
  "only_index_1 i = (if i = 1 then Opened else Unopened)"

definition reads_blank :: "int \<Rightarrow> read_outcome" where
  "reads_blank i = ReadTrue \<lparr>pixels = 0, drawn = []\<rparr>"

definition int_of_number :: "json \<Rightarrow> py_exn + int" where
  "int_of_number v =
     (case v of
        JInt n \<Rightarrow> Inr n
      | JBool b \<Rightarrow> Inr (if b then 1 else 0)
      | JStr s \<Rightarrow> Inl ValueError
      | JFloat q \<Rightarrow> Inr (if 0 \<le> q then \<lfloor>q\<rfloor> else \<lceil>q\<rceil>)
      | _ \<Rightarrow> Inl TypeError)"

definition old_entry :: detection_event where
  "old_entry =
     \<lparr>ev_timestamp = ''2023-12-31 23:59:59'', ev_class = ''cat'', ev_confidence = 1 / 2,
      ev_camera_idx = 0\<rparr>"

definition good_io :: log_env where
  "good_io = \<lparr>now = ''2024-01-01 00:00:00'', read_ok = True, write_res = WriteOk\<rparr>"

definition bad_io :: log_env where
  "bad_io = \<lparr>now = ''2024-01-01 00:00:00'', read_ok = False, write_res = WriteFails Invalid\<rparr>"

definition running_on_0 :: cam_state where
  "running_on_0 = snd (start Opened 0 (init_state True Absent))"

definition failing_encode :: "frame \<Rightarrow> encode_outcome" where
  "failing_encode fr = EncodeRaises"

section \<open>What one call leaves unchanged\<close>

lemma same_session_refl: "same_session s s"
  by (simp add: same_session_def)

lemma same_session_trans: "same_session s s' \<Longrightarrow> same_session s' s'' \<Longrightarrow> same_session s s''"
  by (simp add: same_session_def)

lemma log_detection_session: "same_session s (log_detection env cls c s)"
  by (simp add: log_detection_def log_detection_try_def same_session_def Let_def
      split: log_file_state.splits write_outcome.splits)

lemma log_detection_dev_calls: "dev_calls (log_detection env cls c s) = dev_calls s"
  by (simp add: log_detection_def log_detection_try_def Let_def
      split: log_file_state.splits write_outcome.splits)

lemma log_detection_count_mono:
  "detection_count s \<le> detection_count (log_detection env cls c s)"
  by (simp add: log_detection_def log_detection_try_def Let_def
      split: log_file_state.splits write_outcome.splits)

lemma boxes_loop_session: "boxes_loop bs fr s = (e, fr', s') \<Longrightarrow> same_session s s'"
proof (induction bs fr s rule: boxes_loop.induct)
  case (3 b env bs fr s)
  from 3 have "same_session (log_detection env (cls_name b) (conf b) s) s'" by simp
  with log_detection_session show ?case by (rule same_session_trans)
qed (simp_all add: same_session_refl)

lemma boxes_loop_count_mono:
  "boxes_loop bs fr s = (e, fr', s') \<Longrightarrow> detection_count s \<le> detection_count s'"
proof (induction bs fr s rule: boxes_loop.induct)
  case (3 b env bs fr s)
  from 3 have "detection_count (log_detection env (cls_name b) (conf b) s) \<le> detection_count s'"
    by simp
  with log_detection_count_mono[of s env "cls_name b" "conf b"] show ?case by linarith
qed simp_all

lemma boxes_loop_dev_calls: "boxes_loop bs fr s = (e, fr', s') \<Longrightarrow> dev_calls s' = dev_calls s"
  by (induction bs fr s rule: boxes_loop.induct) (simp_all add: log_detection_dev_calls)

text \<open>The outer loop: one step of the inner loop, then the rest.\<close>

lemma results_loop_Cons:
  assumes "results_loop (r # rs) fr s = (e, fr', s')"
  obtains e1 fr1 s1 where "boxes_loop r fr s = (e1, fr1, s1)"
    and "e1 = None \<Longrightarrow> results_loop rs fr1 s1 = (e, fr', s')"
    and "e1 \<noteq> None \<Longrightarrow> s' = s1"
proof -
  obtain e1 fr1 s1 where b: "boxes_loop r fr s = (e1, fr1, s1)"
    by (cases "boxes_loop r fr s") auto
  show thesis
  proof (rule that[OF b])
    assume "e1 = None"
    with assms b show "results_loop rs fr1 s1 = (e, fr', s')" by simp
  next
    assume "e1 \<noteq> None"
    with assms b show "s' = s1" by auto
  qed
qed

lemma results_loop_session: "results_loop rs fr s = (e, fr', s') \<Longrightarrow> same_session s s'"
proof (induction rs arbitrary: fr s)
  case Nil
  then show ?case by (simp add: same_session_refl)
next
  case (Cons r rs)
  from Cons.prems obtain e1 fr1 s1 where b: "boxes_loop r fr s = (e1, fr1, s1)"
    and n: "e1 = None \<Longrightarrow> results_loop rs fr1 s1 = (e, fr', s')"
    and y: "e1 \<noteq> None \<Longrightarrow> s' = s1"
    by (rule results_loop_Cons) blast
  have s1: "same_session s s1" using b by (rule boxes_loop_session)
  show ?case
  proof (cases "e1 = None")
    case True
    then have "same_session s1 s'" using n Cons.IH by blast
    with s1 show ?thesis by (rule same_session_trans)
  next
    case False
    with y s1 show ?thesis by simp
  qed
qed

lemma results_loop_count_mono:
  "results_loop rs fr s = (e, fr', s') \<Longrightarrow> detection_count s \<le> detection_count s'"
proof (induction rs arbitrary: fr s)
  case Nil
  then show ?case by simp
next
  case (Cons r rs)
  from Cons.prems obtain e1 fr1 s1 where b: "boxes_loop r fr s = (e1, fr1, s1)"
    and n: "e1 = None \<Longrightarrow> results_loop rs fr1 s1 = (e, fr', s')"
    and y: "e1 \<noteq> None \<Longrightarrow> s' = s1"
    by (rule results_loop_Cons) blast
  have s1: "detection_count s \<le> detection_count s1" using b by (rule boxes_loop_count_mono)
  show ?case
  proof (cases "e1 = None")
    case True
    then have "detection_count s1 \<le> detection_count s'" using n Cons.IH by blast
    with s1 show ?thesis by linarith
  next
    case False
    with y s1 show ?thesis by simp
  qed
qed

lemma results_loop_dev_calls:
  "results_loop rs fr s = (e, fr', s') \<Longrightarrow> dev_calls s' = dev_calls s"
proof (induction rs arbitrary: fr s)
  case Nil
  then show ?case by simp
next
  case (Cons r rs)
  from Cons.prems obtain e1 fr1 s1 where b: "boxes_loop r fr s = (e1, fr1, s1)"
    and n: "e1 = None \<Longrightarrow> results_loop rs fr1 s1 = (e, fr', s')"
    and y: "e1 \<noteq> None \<Longrightarrow> s' = s1"
    by (rule results_loop_Cons) blast
  have s1: "dev_calls s1 = dev_calls s" using b by (rule boxes_loop_dev_calls)
  show ?case
  proof (cases "e1 = None")
    case True
    then have "dev_calls s' = dev_calls s1" using n Cons.IH by blast
    with s1 show ?thesis by simp
  next
    case False
    with y s1 show ?thesis by simp
  qed
qed

lemma detect_objects_never_raises: "\<exists>fr' s'. detect_objects d fr s = (Inr fr', s')"
  by (cases "detect_objects_try d fr s") (simp add: detect_objects_def)

lemma detect_objects_session: "detect_objects d fr s = (r, s') \<Longrightarrow> same_session s s'"
  by (cases d; cases "detect_objects_try d fr s")
     (auto simp: detect_objects_def detect_objects_try_def same_session_refl
       dest: results_loop_session)

lemma detect_objects_count_mono:
  "detect_objects d fr s = (r, s') \<Longrightarrow> detection_count s \<le> detection_count s'"
  by (cases d; cases "detect_objects_try d fr s")
     (auto simp: detect_objects_def detect_objects_try_def dest: results_loop_count_mono)

lemma detect_objects_dev_calls:
  "detect_objects d fr s = (r, s') \<Longrightarrow> dev_calls s' = dev_calls s"
  by (cases d; cases "detect_objects_try d fr s")
     (auto simp: detect_objects_def detect_objects_try_def dest: results_loop_dev_calls)

lemma get_frame_try_session: "get_frame_try env s = (r, s') \<Longrightarrow> same_session s s'"
proof -
  assume a: "get_frame_try env s = (r, s')"
  let ?s1 = "s\<lparr>dev_calls := dev_calls s @ [DevRead]\<rparr>"
  have s1: "same_session s ?s1" by (simp add: same_session_def)
  show ?thesis
  proof (cases "read_res env")
    case (ReadTrue fr)
    show ?thesis
    proof (cases "yolo_available s")
      case True
      obtain fr' s2 where d: "detect_objects (detect_res env) fr ?s1 = (Inr fr', s2)"
        using detect_objects_never_raises by blast
      then have "same_session ?s1 s2" by (rule detect_objects_session)
      with s1 have "same_session s s2" by (rule same_session_trans)
      moreover from a ReadTrue True d have "s' = s2"
        by (auto simp: get_frame_try_def Let_def split: encode_outcome.splits)
      ultimately show ?thesis by simp
    next
      case False
      with a ReadTrue have "s' = ?s1"
        by (auto simp: get_frame_try_def Let_def split: encode_outcome.splits)
      with s1 show ?thesis by simp
    qed
  qed (use a s1 in \<open>auto simp: get_frame_try_def Let_def\<close>)
qed

lemma get_frame_try_count_mono:
  "get_frame_try env s = (r, s') \<Longrightarrow> detection_count s \<le> detection_count s'"
proof -
  assume a: "get_frame_try env s = (r, s')"
  let ?s1 = "s\<lparr>dev_calls := dev_calls s @ [DevRead]\<rparr>"
  show ?thesis
  proof (cases "read_res env")
    case (ReadTrue fr)
    show ?thesis
    proof (cases "yolo_available s")
      case True
      obtain fr' s2 where d: "detect_objects (detect_res env) fr ?s1 = (Inr fr', s2)"
        using detect_objects_never_raises by blast
      then have "detection_count ?s1 \<le> detection_count s2" by (rule detect_objects_count_mono)
      moreover from a ReadTrue True d have "s' = s2"
        by (auto simp: get_frame_try_def Let_def split: encode_outcome.splits)
      ultimately show ?thesis by simp
    next
      case False
      with a ReadTrue have "s' = ?s1"
        by (auto simp: get_frame_try_def Let_def split: encode_outcome.splits)
      then show ?thesis by simp
    qed
  qed (use a in \<open>auto simp: get_frame_try_def Let_def\<close>)
qed

lemma get_frame_session: "get_frame env s = (r, s') \<Longrightarrow> same_session s s'"
  by (cases "get_frame_try env s")
     (auto simp: get_frame_def same_session_refl split: if_splits sum.splits
       dest: get_frame_try_session)

lemma get_frame_count_mono:
  "get_frame env s = (r, s') \<Longrightarrow> detection_count s \<le> detection_count s'"
  by (cases "get_frame_try env s")
     (auto simp: get_frame_def split: if_splits sum.splits dest: get_frame_try_count_mono)

lemma get_frame_never_raises: "\<exists>r. fst (get_frame env s) = Inr r"
  by (cases "get_frame_try env s") (auto simp: get_frame_def split: sum.splits)

lemma get_frame_stopped: "\<not> is_running s \<Longrightarrow> get_frame env s = (Inr None, s)"
  by (simp add: get_frame_def)

lemma step_count_mono: "detection_count s \<le> detection_count (snd (step x s))"
proof (cases x)
  case (OpStart oc i)
  then show ?thesis by (simp add: start_def split: open_outcome.splits prod.splits)
next
  case OpStop
  then show ?thesis by (simp add: stop_def Let_def split: option.splits prod.splits)
next
  case (OpGetFrame env)
  then show ?thesis by (auto split: prod.splits dest: get_frame_count_mono)
next
  case OpGetStatus
  then show ?thesis by simp
qed

lemma run_snd_Cons: "snd (run (x # xs) s) = snd (run xs (snd (step x s)))"
  by (simp split: prod.splits)

lemma run_fst_Cons: "fst (run (x # xs) s) = fst (step x s) # fst (run xs (snd (step x s)))"
  by (simp split: prod.splits)

lemma run_count_mono: "detection_count s \<le> detection_count (snd (run xs s))"
proof (induction xs arbitrary: s)
  case Nil
  then show ?case by simp
next
  case (Cons x xs)
  have "detection_count s \<le> detection_count (snd (step x s))" by (rule step_count_mono)
  also have "\<dots> \<le> detection_count (snd (run xs (snd (step x s))))" by (rule Cons.IH)
  finally show ?case by (simp only: run_snd_Cons)
qed

text \<open>The only device call \<^verbatim>\<open>get_frame\<close> ever makes is one read: it opens and releases
  nothing, in any state.\<close>

lemma get_frame_try_dev_calls:
  "dev_calls (snd (get_frame_try env s)) = dev_calls s @ [DevRead]"
proof (cases "read_res env")
  case (ReadTrue fr)
  let ?s1 = "s\<lparr>dev_calls := dev_calls s @ [DevRead]\<rparr>"
  show ?thesis
  proof (cases "yolo_available s")
    case True
    obtain fr' s2 where d: "detect_objects (detect_res env) fr ?s1 = (Inr fr', s2)"
      using detect_objects_never_raises by blast
    then have "dev_calls s2 = dev_calls ?s1" by (rule detect_objects_dev_calls)
    with ReadTrue True d show ?thesis
      by (simp add: get_frame_try_def Let_def split: encode_outcome.splits)
  next
    case False
    with ReadTrue show ?thesis
      by (simp add: get_frame_try_def Let_def split: encode_outcome.splits)
  qed
qed (simp_all add: get_frame_try_def Let_def)

lemma get_frame_dev_calls:
  "dev_calls (snd (get_frame env s)) = dev_calls s
   \<or> dev_calls (snd (get_frame env s)) = dev_calls s @ [DevRead]"
  using get_frame_try_dev_calls[of env s]
  by (cases "get_frame_try env s") (auto simp: get_frame_def split: sum.splits)

section \<open>The session invariant\<close>

text \<open>
  Claim C1: the handle field is non-null if and only if the session is RUNNING, and a
  start whose device does not open leaves the session STOPPED with a null handle.
  The code at that input: on the fresh session, \<^verbatim>\<open>start(2)\<close> with a device that does not
  open answers failure and leaves \<^verbatim>\<open>is_running\<close> false, but \<^verbatim>\<open>self.camera\<close> keeps the
  unopened capture object assigned at line 86; the early return of line 89 does not
  reset it, while \<^verbatim>\<open>stop\<close> (line 114) and \<^verbatim>\<open>__init__\<close> (line 71) do set it to \<^verbatim>\<open>None\<close>.
\<close>
theorem failed_start_keeps_handle:
  "fst (run [OpStart Unopened 2] (init_state True Absent))
      = [RControl (Inr \<lparr>success = False, message = ConnectFailed 2\<rparr>)]
   \<and> is_running (snd (run [OpStart Unopened 2] (init_state True Absent))) = False
   \<and> camera (snd (run [OpStart Unopened 2] (init_state True Absent)))
      = Some \<lparr>cap_index = 2, cap_opened = False\<rparr>"
  by (simp add: start_def init_state_def)

text \<open>The direction of the invariant that the code does keep: a RUNNING session holds an
  opened capture.\<close>

lemma step_snd_get_frame: "snd (step (OpGetFrame env) s) = snd (get_frame env s)"
  by (simp split: prod.splits)

lemma step_running_has_handle:
  assumes inv: "is_running s \<longrightarrow> (\<exists>c. camera s = Some c \<and> cap_opened c)"
  shows "is_running (snd (step x s)) \<longrightarrow> (\<exists>c. camera (snd (step x s)) = Some c \<and> cap_opened c)"
proof (cases x)
  case (OpStart oc i)
  with inv show ?thesis by (cases oc) (auto simp: start_def)
next
  case OpStop
  then show ?thesis by (auto simp: stop_def Let_def split: option.splits)
next
  case (OpGetFrame env)
  have "same_session s (snd (get_frame env s))"
    by (rule get_frame_session[of env s "fst (get_frame env s)"]) simp
  with inv OpGetFrame show ?thesis by (simp add: same_session_def step_snd_get_frame del: step.simps)
next
  case OpGetStatus
  with inv show ?thesis by simp
qed

lemma run_running_has_handle:
  "(is_running s \<longrightarrow> (\<exists>c. camera s = Some c \<and> cap_opened c)) \<Longrightarrow>
   is_running (snd (run xs s)) \<longrightarrow> (\<exists>c. camera (snd (run xs s)) = Some c \<and> cap_opened c)"
proof (induction xs arbitrary: s)
  case Nil
  then show ?case by simp
next
  case (Cons x xs)
  from Cons.prems have "is_running (snd (step x s)) \<longrightarrow>
      (\<exists>c. camera (snd (step x s)) = Some c \<and> cap_opened c)"
    by (rule step_running_has_handle)
  then show ?case unfolding run_snd_Cons by (rule Cons.IH)
qed

section \<open>The lock\<close>

text \<open>
  Claim C2: \<^verbatim>\<open>start\<close>, \<^verbatim>\<open>stop\<close> and the device read of \<^verbatim>\<open>get_frame\<close> all run under the one
  lock, so that a \<^verbatim>\<open>stop\<close> cannot release the handle under a \<^verbatim>\<open>get_frame\<close>.
  The code on one schedule, from a session running on camera 0: the viewer passes the
  guard of line 120; the stopper takes the lock and runs lines 108 to 113, the last being
  \<^verbatim>\<open>self.camera.release()\<close>; then the viewer runs the read of line 124. That read happens
  while the stopper owns the lock, on a capture that is already released.
\<close>
theorem stop_releases_under_get_frame:
  "reads (conc_run [Viewer, Stopper, Stopper, Stopper, Stopper, Stopper, Viewer]
            (conc_init running_on_0))
     = [\<lparr>rd_lock_owner = Some Stopper, rd_cap_opened = False\<rparr>]"
  by (simp add: running_on_0_def start_def init_state_def conc_init_def viewer_step_def
      stopper_step_def)

text \<open>The stopper running alone does what \<^verbatim>\<open>stop\<close> does, and no statement of the viewer
  changes the owner of the lock.\<close>

lemma stopper_alone_is_stop:
  "shared (conc_run [Stopper, Stopper, Stopper, Stopper, Stopper, Stopper, Stopper] (conc_init s))
     = snd (stop s)"
proof (cases "is_running s")
  case False
  then show ?thesis by (simp add: conc_init_def stopper_step_def stop_def)
next
  case True
  show ?thesis
  proof (cases "camera s")
    case None
    with True show ?thesis by (simp add: conc_init_def stopper_step_def stop_def)
  next
    case (Some cap)
    with True show ?thesis by (simp add: conc_init_def stopper_step_def stop_def)
  qed
qed

lemma viewer_never_locks: "lock_owner (viewer_step c) = lock_owner c"
  by (simp add: viewer_step_def Let_def split: viewer_pc.splits option.splits)

section \<open>Starting a running session\<close>

text \<open>
  Claim C4: for every index \<open>i\<close> and whatever the device would do, \<^verbatim>\<open>start(i)\<close> on a
  RUNNING session answers success and returns the state as it was: the handle, the
  recorded index and the list of device calls are unchanged, so no device is opened.
\<close>
theorem start_while_running:
  "is_running s \<Longrightarrow> start oc i s = (Inr \<lparr>success = True, message = AlreadyRunning\<rparr>, s)"
  by (simp add: start_def)

theorem start_while_running_witness:
  "is_running running_on_0 \<and> current_camera_index running_on_0 = 0 \<and>
   start Opened 3 running_on_0 = (Inr \<lparr>success = True, message = AlreadyRunning\<rparr>, running_on_0)"
  using start_while_running[of running_on_0 Opened 3]
  by (simp add: running_on_0_def start_def init_state_def)

section \<open>The detector adapter\<close>

text \<open>
  Claim C5: when the detection model raises on a frame (the call of line 140),
  \<^verbatim>\<open>detect_objects\<close> returns that frame as it was given, with nothing drawn on it, and
  the state is unchanged, so no detection is recorded; and whatever the model and the
  boxes do, \<^verbatim>\<open>detect_objects\<close> returns a frame and raises nothing.
\<close>
theorem detect_objects_model_failure:
  "detect_objects ModelRaises fr s = (Inr fr, s) \<and> (\<exists>fr' s'. detect_objects d fr s = (Inr fr', s'))"
  using detect_objects_never_raises[of d fr s]
  by (simp add: detect_objects_def detect_objects_try_def)

section \<open>The registry scan\<close>

lemma probe_loop_filter:
  "probe_loop opn rd xs acc = acc @ filter (opens_and_reads opn rd) xs"
  by (induction xs arbitrary: acc)
     (auto simp: probe_try_def opens_and_reads_def split: open_outcome.splits read_outcome.splits)

text \<open>
  Claim C6: the scan returns, in ascending order and without repetition, exactly the
  indices among 0, 1, 2, 3 whose device opens and delivers one frame; an index whose
  constructor or read raises, or which does not open or read, is skipped, and the scan
  itself raises nothing (the result is an \<open>Inr\<close>, the empty list when no index
  qualifies).
\<close>

theorem get_available_cameras_exact:
  "get_available_cameras opn rd = Inr (filter (opens_and_reads opn rd) [0, 1, 2, 3])
   \<and> sorted (filter (opens_and_reads opn rd) [0, 1, 2, 3])
   \<and> distinct (filter (opens_and_reads opn rd) [0, 1, 2, 3])"
proof -
  have "sorted [0, 1, 2, 3 :: int]" by simp
  then have "sorted (filter (opens_and_reads opn rd) [0, 1, 2, 3])" by (rule sorted_wrt_filter)
  moreover have "distinct (filter (opens_and_reads opn rd) [0, 1, 2, 3])"
    by (rule distinct_filter) simp
  ultimately show ?thesis by (simp add: get_available_cameras_def probe_loop_filter)
qed

theorem get_available_cameras_exact_witness:
  "get_available_cameras only_index_1 reads_blank = Inr [1]"
  using get_available_cameras_exact[of only_index_1 reads_blank]
  by (simp add: opens_and_reads_def only_index_1_def reads_blank_def)

section \<open>Fetching a frame\<close>

lemma get_frame_read_fails:
  assumes "is_running s" and "camera s \<noteq> None"
    and "read_res env = ReadFalse \<or> read_res env = ReadRaises"
  shows "get_frame env s = (Inr None, s\<lparr>dev_calls := dev_calls s @ [DevRead]\<rparr>)"
  using assms by (auto simp: get_frame_def get_frame_try_def Let_def)

lemma get_frame_model_raises:
  assumes "is_running s" and "camera s \<noteq> None" and "yolo_available s"
    and "read_res env = ReadTrue fr" and "detect_res env = ModelRaises"
  shows "get_frame env s
           = (Inr (encoded (encode_res env fr)), s\<lparr>dev_calls := dev_calls s @ [DevRead]\<rparr>)"
  using assms
  by (auto simp: get_frame_def get_frame_try_def Let_def detect_objects_def
      detect_objects_try_def encoded_def split: encode_outcome.splits)

lemma get_frame_logger_fails:
  assumes "is_running s" and "camera s \<noteq> None" and "yolo_available s"
    and "read_res env = ReadTrue fr" and "detect_res env = Results [[BoxOk b lenv]]"
  shows "fst (get_frame env s) = Inr (encoded (encode_res env (draw b fr)))"
  using assms
  by (simp add: get_frame_def get_frame_try_def Let_def detect_objects_def
      detect_objects_try_def encoded_def split: encode_outcome.splits)

lemma get_frame_try_encode_fails:
  assumes "\<forall>fr. encoded (encode_res env fr) = None"
  shows "fst (get_frame_try env s) \<noteq> Inr (Some bs)"
proof (cases "read_res env")
  case (ReadTrue fr)
  let ?s1 = "s\<lparr>dev_calls := dev_calls s @ [DevRead]\<rparr>"
  obtain fr' s2 where d:
      "(if yolo_available ?s1 then detect_objects (detect_res env) fr ?s1 else (Inr fr, ?s1))
         = (Inr fr', s2)"
    using detect_objects_never_raises[of "detect_res env" fr ?s1] by (cases "yolo_available s") auto
  from assms have "encoded (encode_res env fr') = None" by simp
  then have "encode_res env fr' \<noteq> EncodeTrue x" for x by (auto simp: encoded_def)
  with ReadTrue d show ?thesis
    by (simp add: get_frame_try_def Let_def split: encode_outcome.splits)
qed (simp_all add: get_frame_try_def Let_def)

lemma get_frame_encode_fails:
  assumes "\<forall>fr. encoded (encode_res env fr) = None"
  shows "fst (get_frame env s) = Inr None"
proof -
  have "fst (get_frame_try env s) \<noteq> Inr (Some bs)" for bs
    using assms by (rule get_frame_try_encode_fails)
  then have "fst (get_frame_try env s) = Inr r \<Longrightarrow> r = None" for r
    by (cases r) auto
  then show ?thesis
    by (cases "get_frame_try env s") (auto simp: get_frame_def split: sum.splits)
qed

text \<open>
  Against claim C3 as it is worded ("any failure in the read, detect, encode or log path
  degrades to no frame"): on a running session with a working read and encoder, a
  detection model that raises does not give "no frame"; the frame comes back encoded,
  with nothing drawn on it.
\<close>

theorem detector_failure_still_yields_frame:
  "fst (get_frame \<lparr>read_res = ReadTrue \<lparr>pixels = 7, drawn = []\<rparr>, detect_res = ModelRaises,
                   encode_res = sample_encode\<rparr> running_on_0) = Inr (Some [7, 0])"
  by (simp add: get_frame_def get_frame_try_def detect_objects_def detect_objects_try_def
      running_on_0_def start_def init_state_def sample_encode_def)

text \<open>
  Claim C3, amended. \<^verbatim>\<open>get_frame\<close> always returns and never raises, and it never changes
  the running flag, the handle, the index or the detector flag. On a STOPPED session it
  returns "no frame" and leaves the whole state as it was, the list of device calls
  included. On a RUNNING session whose read fails (a false flag or an exception) it returns
  "no frame" and the state is unchanged but for the one read recorded. An encoder that
  fails gives "no frame". A detection model that raises, and a logger that fails, are
  absorbed where they occur: the frame is still encoded and returned, unannotated in the
  first case and annotated in the second.
\<close>

theorem get_frame_total_and_degrading:
  "(\<exists>r. fst (get_frame env s) = Inr r)
   \<and> same_session s (snd (get_frame env s))
   \<and> (\<not> is_running s0 \<longrightarrow> get_frame env0 s0 = (Inr None, s0))
   \<and> (is_running s1 \<and> camera s1 \<noteq> None
        \<and> (read_res env1 = ReadFalse \<or> read_res env1 = ReadRaises) \<longrightarrow>
        get_frame env1 s1 = (Inr None, s1\<lparr>dev_calls := dev_calls s1 @ [DevRead]\<rparr>))
   \<and> ((\<forall>fr. encoded (encode_res env2 fr) = None) \<longrightarrow> fst (get_frame env2 s2) = Inr None)
   \<and> (is_running s3 \<and> camera s3 \<noteq> None \<and> yolo_available s3
        \<and> read_res env3 = ReadTrue fr3 \<and> detect_res env3 = ModelRaises \<longrightarrow>
        get_frame env3 s3
          = (Inr (encoded (encode_res env3 fr3)), s3\<lparr>dev_calls := dev_calls s3 @ [DevRead]\<rparr>))
   \<and> (is_running s4 \<and> camera s4 \<noteq> None \<and> yolo_available s4
        \<and> read_res env4 = ReadTrue fr4 \<and> detect_res env4 = Results [[BoxOk b lenv]] \<longrightarrow>
        fst (get_frame env4 s4) = Inr (encoded (encode_res env4 (draw b fr4))))"
proof -
  have "same_session s (snd (get_frame env s))"
    by (rule get_frame_session[of env s "fst (get_frame env s)"]) simp
  then show ?thesis
    using get_frame_never_raises[of env s] get_frame_stopped[of s0 env0]
      get_frame_read_fails[of s1 env1] get_frame_encode_fails[of env2 s2]
      get_frame_model_raises[of s3 env3 fr3] get_frame_logger_fails[of s4 env4 fr4 b lenv]
    by blast
qed

theorem get_frame_total_and_degrading_witness:
  "get_frame \<lparr>read_res = ReadTrue \<lparr>pixels = 7, drawn = []\<rparr>, detect_res = ModelRaises,
              encode_res = sample_encode\<rparr> (init_state True Absent)
     = (Inr None, init_state True Absent)
   \<and> get_frame \<lparr>read_res = ReadFalse, detect_res = ModelRaises, encode_res = sample_encode\<rparr>
        running_on_0
     = (Inr None, running_on_0\<lparr>dev_calls := dev_calls running_on_0 @ [DevRead]\<rparr>)
   \<and> fst (get_frame \<lparr>read_res = ReadTrue \<lparr>pixels = 7, drawn = []\<rparr>, detect_res = ModelRaises,
                   encode_res = failing_encode\<rparr> running_on_0) = Inr None
   \<and> get_frame \<lparr>read_res = ReadTrue \<lparr>pixels = 7, drawn = []\<rparr>, detect_res = ModelRaises,
                encode_res = sample_encode\<rparr> running_on_0
     = (Inr (Some [7, 0]), running_on_0\<lparr>dev_calls := dev_calls running_on_0 @ [DevRead]\<rparr>)
   \<and> fst (get_frame \<lparr>read_res = ReadTrue \<lparr>pixels = 7, drawn = []\<rparr>,
          detect_res = Results [[BoxOk \<lparr>x1 = 1, y1 = 20, x2 = 30, y2 = 40, conf = 9 / 10,
                                          cls_name = ''person''\<rparr> bad_io]],
          encode_res = sample_encode\<rparr> running_on_0) = Inr (Some [7, 2])"
  using get_frame_total_and_degrading[of
      "\<lparr>read_res = ReadFalse, detect_res = ModelRaises, encode_res = sample_encode\<rparr>"
      running_on_0
      "init_state True Absent"
      "\<lparr>read_res = ReadTrue \<lparr>pixels = 7, drawn = []\<rparr>, detect_res = ModelRaises,
        encode_res = sample_encode\<rparr>"
      running_on_0
      "\<lparr>read_res = ReadFalse, detect_res = ModelRaises, encode_res = sample_encode\<rparr>"
      "\<lparr>read_res = ReadTrue \<lparr>pixels = 7, drawn = []\<rparr>, detect_res = ModelRaises,
        encode_res = failing_encode\<rparr>"
      running_on_0
      running_on_0
      "\<lparr>read_res = ReadTrue \<lparr>pixels = 7, drawn = []\<rparr>, detect_res = ModelRaises,
        encode_res = sample_encode\<rparr>"
      "\<lparr>pixels = 7, drawn = []\<rparr>"
      running_on_0
      "\<lparr>read_res = ReadTrue \<lparr>pixels = 7, drawn = []\<rparr>,
          detect_res = Results [[BoxOk \<lparr>x1 = 1, y1 = 20, x2 = 30, y2 = 40, conf = 9 / 10,
                                          cls_name = ''person''\<rparr> bad_io]],
          encode_res = sample_encode\<rparr>"
      "\<lparr>pixels = 7, drawn = []\<rparr>"
      "\<lparr>x1 = 1, y1 = 20, x2 = 30, y2 = 40, conf = 9 / 10, cls_name = ''person''\<rparr>"
      bad_io]
  by (simp add: running_on_0_def start_def init_state_def sample_encode_def failing_encode_def
      encoded_def draw_def)

section \<open>The bounded log\<close>

lemma truncate_logs_drop: "truncate_logs l = drop (length l - 1000) l"
  by (simp add: truncate_logs_def)

lemma length_truncate_logs: "length (truncate_logs l) \<le> 1000"
  by (simp add: truncate_logs_def)

lemma truncate_logs_append:
  "truncate_logs (truncate_logs xs @ ys) = truncate_logs (xs @ ys)"
proof (cases "length xs \<le> 1000")
  case True
  then show ?thesis by (simp add: truncate_logs_def)
next
  case False
  define k where "k = length xs - 1000"
  from False have lx: "length xs = k + 1000" by (simp add: k_def)
  have l: "truncate_logs xs = drop k xs" by (simp add: truncate_logs_drop k_def)
  have "truncate_logs (drop k xs @ ys) = drop (length ys) (drop k xs @ ys)"
    by (simp add: truncate_logs_drop lx)
  also have "\<dots> = drop (length ys) (drop k (xs @ ys))" by (simp add: lx)
  also have "\<dots> = drop (length ys + k) (xs @ ys)" by (simp only: drop_drop)
  also have "\<dots> = truncate_logs (xs @ ys)" by (simp add: truncate_logs_drop lx add.commute)
  finally show ?thesis by (simp only: l)
qed

lemma log_detection_ok:
  assumes "io_ok env" and "log_file s \<noteq> Invalid"
  shows "log_detection env cls c s
           = s\<lparr>log_file := Logs (truncate_logs (stored (log_file s) @ [new_log (now env) cls c s])),
               detection_count := detection_count s + 1\<rparr>"
  using assms
  by (cases "log_file s")
     (simp_all add: log_detection_def log_detection_try_def io_ok_def stored_def Let_def)

lemma event_of_session: "current_camera_index s' = current_camera_index s \<Longrightarrow> event_of s' x = event_of s x"
  by (cases x) (simp add: event_of_def new_log_def)

lemma log_all_ok:
  assumes "\<forall>x\<in>set ins. io_ok (fst x)" and "log_file s \<noteq> Invalid" and "ins \<noteq> []"
  shows "log_file (log_all ins s) = Logs (truncate_logs (stored (log_file s) @ map (event_of s) ins))
         \<and> detection_count (log_all ins s) = detection_count s + int (length ins)"
  using assms
proof (induction ins arbitrary: s)
  case Nil
  then show ?case by simp
next
  case (Cons x ins)
  obtain env cls c where x: "x = (env, cls, c)" by (cases x) auto
  let ?s' = "log_detection env cls c s"
  from Cons.prems x have ok: "io_ok env" by simp
  have s': "?s' = s\<lparr>log_file := Logs (truncate_logs (stored (log_file s) @ [event_of s x])),
                     detection_count := detection_count s + 1\<rparr>"
    using log_detection_ok[OF ok Cons.prems(2)] by (simp add: event_of_def x)
  show ?case
  proof (cases "ins = []")
    case True
    with s' x show ?thesis by simp
  next
    case False
    have idx: "current_camera_index ?s' = current_camera_index s" by (simp add: s')
    from Cons.prems have "\<forall>y\<in>set ins. io_ok (fst y)" by simp
    moreover have "log_file ?s' \<noteq> Invalid" by (simp add: s')
    ultimately have ih:
      "log_file (log_all ins ?s')
         = Logs (truncate_logs (stored (log_file ?s') @ map (event_of ?s') ins))
       \<and> detection_count (log_all ins ?s') = detection_count ?s' + int (length ins)"
      using False by (rule Cons.IH)
    have m: "map (event_of ?s') ins = map (event_of s) ins"
      using event_of_session[OF idx] by simp
    have st: "stored (log_file ?s') = truncate_logs (stored (log_file s) @ [event_of s x])"
      by (simp add: s' stored_def)
    have cnt: "detection_count ?s' = detection_count s + 1" by (simp add: s')
    from ih show ?thesis
      unfolding m st cnt by (simp add: x truncate_logs_append)
  qed
qed

lemma log_all_count_mono: "detection_count s \<le> detection_count (log_all ins s)"
proof (induction ins arbitrary: s)
  case Nil
  then show ?case by simp
next
  case (Cons x ins)
  obtain env cls c where x: "x = (env, cls, c)" by (cases x) auto
  have "detection_count s \<le> detection_count (log_detection env cls c s)"
    by (rule log_detection_count_mono)
  also have "\<dots> \<le> detection_count (log_all ins (log_detection env cls c s))" by (rule Cons.IH)
  finally show ?case by (simp add: x)
qed

text \<open>
  Claim C7: after every \<^verbatim>\<open>log_detection\<close> call that goes through (the file, if present,
  loads, and the rewrite succeeds) the file holds at most 1000 entries; and when 1000 + k
  detections are logged one after the other, all going through, whatever entries the
  file held before, the file holds exactly the last 1000 of their entries, in the order
  logged: the first k, and all older entries, are gone.
\<close>
theorem log_keeps_most_recent_1000:
  "(io_ok env \<and> log_file s \<noteq> Invalid \<longrightarrow>
      (\<exists>l. log_file (log_detection env cls c s) = Logs l \<and> length l \<le> 1000))
   \<and> ((\<forall>x\<in>set ins. io_ok (fst x)) \<and> log_file s0 \<noteq> Invalid
        \<and> length ins = 1000 + k \<longrightarrow>
        log_file (log_all ins s0) = Logs (drop k (map (event_of s0) ins))
        \<and> length (drop k (map (event_of s0) ins)) = 1000)"
proof (intro conjI impI)
  assume "io_ok env \<and> log_file s \<noteq> Invalid"
  then show "\<exists>l. log_file (log_detection env cls c s) = Logs l \<and> length l \<le> 1000"
    using log_detection_ok[of env s cls c] by (simp add: length_truncate_logs)
next
  assume a: "(\<forall>x\<in>set ins. io_ok (fst x)) \<and> log_file s0 \<noteq> Invalid
      \<and> length ins = 1000 + k"
  then have ne: "ins \<noteq> []" and inv: "log_file s0 \<noteq> Invalid" by auto
  from a have "log_file (log_all ins s0)
      = Logs (truncate_logs (stored (log_file s0) @ map (event_of s0) ins))"
    using log_all_ok[OF _ inv ne] by blast
  with a show "log_file (log_all ins s0) = Logs (drop k (map (event_of s0) ins))"
    by (simp add: truncate_logs_drop)
  from a show "length (drop k (map (event_of s0) ins)) = 1000" by simp
qed

theorem log_keeps_most_recent_1000_witness:
  "log_file (log_detection good_io ''person'' (9 / 10) (init_state True Absent))
     = Logs [event_of (init_state True Absent) (good_io, ''person'', 9 / 10)]
   \<and> log_file (log_all (replicate 1000 (good_io, ''person'', 9 / 10) @ [(good_io, ''dog'', 3 / 4)])
        (init_state True (Logs [old_entry])))
     = Logs (replicate 999 (event_of (init_state True Absent) (good_io, ''person'', 9 / 10))
             @ [event_of (init_state True Absent) (good_io, ''dog'', 3 / 4)])"
proof -
  let ?ins = "replicate 1000 (good_io, ''person'', 9 / 10) @ [(good_io, ''dog'', 3 / 4)]"
  let ?s0 = "init_state True (Logs [old_entry])"
  have one: "log_file (log_detection good_io ''person'' (9 / 10) (init_state True Absent))
     = Logs [event_of (init_state True Absent) (good_io, ''person'', 9 / 10)]"
    by (simp add: log_detection_def log_detection_try_def init_state_def good_io_def
        truncate_logs_def event_of_def)
  have ok: "\<forall>x\<in>set ?ins. io_ok (fst x)"
    by (simp add: io_ok_def good_io_def)
  have f: "log_file ?s0 \<noteq> Invalid"
    by (simp add: init_state_def)
  have len: "length ?ins = 1000 + 1" by simp
  have ev: "event_of ?s0 = event_of (init_state True Absent)"
    by (rule ext) (simp add: event_of_def new_log_def init_state_def split: prod.splits)
  from log_keeps_most_recent_1000[of good_io "init_state True Absent" "''person''" "9 / 10"
      ?ins ?s0 1] ok f len
  have "log_file (log_all ?ins ?s0) = Logs (drop 1 (map (event_of ?s0) ?ins))"
    by blast
  then have "log_file (log_all ?ins ?s0)
     = Logs (replicate 999 (event_of (init_state True Absent) (good_io, ''person'', 9 / 10))
             @ [event_of (init_state True Absent) (good_io, ''dog'', 3 / 4)])"
    by (simp add: ev)
  with one show ?thesis by simp
qed

section \<open>The detection counter\<close>

text \<open>
  Claim C8: \<^verbatim>\<open>detection_count\<close> never decreases, over any sequence of session operations
  and over any sequence of \<^verbatim>\<open>log_detection\<close> calls; and after N detections have been
  logged on a fresh manager, each call going through, \<^verbatim>\<open>get_status\<close> reports N. (The
  counter is incremented at line 180, after the rewrite, so it counts the entries written.)
\<close>
theorem detection_count_counts_logged_events:
  "detection_count s \<le> detection_count (snd (run xs s))
   \<and> detection_count s \<le> detection_count (log_all ins s)
   \<and> ((\<forall>x\<in>set ins0. io_ok (fst x)) \<and> f \<noteq> Invalid \<longrightarrow>
        st_detection_count (get_status (log_all ins0 (init_state y f))) = int (length ins0))"
proof (intro conjI impI)
  show "detection_count s \<le> detection_count (snd (run xs s))" by (rule run_count_mono)
  show "detection_count s \<le> detection_count (log_all ins s)" by (rule log_all_count_mono)
next
  assume a: "(\<forall>x\<in>set ins0. io_ok (fst x)) \<and> f \<noteq> Invalid"
  show "st_detection_count (get_status (log_all ins0 (init_state y f))) = int (length ins0)"
  proof (cases "ins0 = []")
    case True
    then show ?thesis by (simp add: get_status_def init_state_def)
  next
    case False
    from a have "log_file (init_state y f) \<noteq> Invalid" by (simp add: init_state_def)
    with a False have "detection_count (log_all ins0 (init_state y f))
        = detection_count (init_state y f) + int (length ins0)"
      using log_all_ok[of ins0 "init_state y f"] by blast
    then show ?thesis by (simp add: get_status_def init_state_def)
  qed
qed

theorem detection_count_counts_logged_events_witness:
  "st_detection_count (get_status (log_all (replicate 5 (good_io, ''person'', 9 / 10))
      (init_state True Absent))) = 5"
proof -
  have "\<forall>x\<in>set (replicate 5 (good_io, ''person'', 9 / 10)). io_ok (fst x)"
    by (simp add: io_ok_def good_io_def)
  with detection_count_counts_logged_events[of "init_state True Absent" "[]" "[]"
      "replicate 5 (good_io, ''person'', 9 / 10)" Absent True]
  show ?thesis by simp
qed

section \<open>The control endpoint\<close>

text \<open>
  The requests the handler does answer with a structured failure: when the body is a JSON
  object whose \<^verbatim>\<open>action\<close> is a string, or is absent (the default of line 357 is the empty
  string), and that string in lower case is neither \<^verbatim>\<open>on\<close> nor \<^verbatim>\<open>off\<close>, the else-branch
  of lines 365 and 366 answers \<^verbatim>\<open>success: false\<close> with its fixed message and the session
  is left as it was.
\<close>

lemma control_unknown_string_action:
  "py_get data ''action'' (JStr []) = Inr (JStr a) \<and> map lower_char a \<noteq> ''on''
     \<and> map lower_char a \<noteq> ''off'' \<longrightarrow>
   control py_int oc (Inr data) s = (Inr \<lparr>success = False, message = BadRequest\<rparr>, s)"
proof
  assume a: "py_get data ''action'' (JStr []) = Inr (JStr a) \<and> map lower_char a \<noteq> ''on''
     \<and> map lower_char a \<noteq> ''off''"
  then have g: "py_get data ''action'' (JStr []) = Inr (JStr a)" by simp
  have l: "py_lower (JStr a) = Inr (map lower_char a)" by (simp add: py_lower_def)
  from a have n1: "(map lower_char a = ''on'') = False" and n2: "(map lower_char a = ''off'') = False"
    by simp_all
  show "control py_int oc (Inr data) s = (Inr \<lparr>success = False, message = BadRequest\<rparr>, s)"
    unfolding control_def by (simp only: g l n1 n2 sum.case if_False)
qed

lemma toggle_lower: "map lower_char ''Toggle'' = ''toggle''"
  by (simp add: lower_char_def)

lemma control_unknown_string_action_example:
  "control int_of_number Opened (Inr (JObj [(''action'', JStr ''Toggle'')])) running_on_0
      = (Inr \<lparr>success = False, message = BadRequest\<rparr>, running_on_0)
   \<and> control int_of_number Opened (Inr (JObj [])) running_on_0
      = (Inr \<lparr>success = False, message = BadRequest\<rparr>, running_on_0)"
proof -
  have g: "py_get (JObj [(''action'', JStr ''Toggle'')]) ''action'' (JStr []) = Inr (JStr ''Toggle'')"
    by (simp add: py_get_def)
  have n: "map lower_char ''Toggle'' \<noteq> ''on''" "map lower_char ''Toggle'' \<noteq> ''off''"
    by (simp_all add: toggle_lower)
  have g0: "py_get (JObj []) ''action'' (JStr []) = Inr (JStr [])" by (simp add: py_get_def)
  have n0: "map lower_char [] \<noteq> ''on''" "map lower_char [] \<noteq> ''off''" by simp_all
  from control_unknown_string_action[of "JObj [(''action'', JStr ''Toggle'')]" "''Toggle''"
      int_of_number Opened running_on_0] g n
    control_unknown_string_action[of "JObj []" "[]" int_of_number Opened running_on_0] g0 n0
  show ?thesis by blast
qed

lemma control_non_string_action:
  "py_get (JObj [(''action'', JInt 5)]) ''action'' (JStr []) = Inr (JInt 5)
   \<and> py_lower (JInt 5) = Inl AttributeError"
  by (simp add: py_get_def py_lower_def)

text \<open>
  Claim C9: every malformed control request, in particular one whose action is other than
  \<^verbatim>\<open>on\<close> or \<^verbatim>\<open>off\<close>, is answered with a structured failure and never with a server error.
  The code at the body \<^verbatim>\<open>{"action": 5}\<close>: \<^verbatim>\<open>data.get('action', '')\<close> gives the integer,
  \<^verbatim>\<open>.lower()\<close> on it raises at line 357, and the \<^verbatim>\<open>AttributeError\<close> leaves the handler, which
  has no \<^verbatim>\<open>try\<close>: no response is built and the else-branch written for unknown actions is
  never reached.
\<close>

theorem control_raises_on_numeric_action:
  "control int_of_number Opened (Inr (JObj [(''action'', JInt 5)])) (init_state True Absent)
     = (Inl AttributeError, init_state True Absent)"
  unfolding control_def by (simp only: control_non_string_action sum.case)

section \<open>The recorded index\<close>

lemma step_fst_get_frame: "fst (step (OpGetFrame env) s) = RFrame (fst (get_frame env s))"
  by (simp split: prod.splits)

lemma step_index:
  "current_camera_index (snd (step x s))
     = last_started [fst (step x s)] (current_camera_index s)"
proof (cases x)
  case (OpStart oc i)
  then show ?thesis by (cases oc) (simp_all add: start_def)
next
  case OpStop
  then show ?thesis by (simp add: stop_def Let_def split: option.splits)
next
  case (OpGetFrame env)
  have "same_session s (snd (get_frame env s))"
    by (rule get_frame_session[of env s "fst (get_frame env s)"]) simp
  with OpGetFrame show ?thesis
    by (simp add: same_session_def step_snd_get_frame step_fst_get_frame del: step.simps)
next
  case OpGetStatus
  then show ?thesis by simp
qed

lemma last_started_Cons: "last_started (r # rs) d = last_started rs (last_started [r] d)"
proof (cases r)
  case (RControl c)
  then show ?thesis
  proof (cases c)
    case (Inr resp)
    with RControl show ?thesis by (cases "message resp") simp_all
  qed simp
qed simp_all

lemma run_index:
  "current_camera_index (snd (run xs s)) = last_started (fst (run xs s)) (current_camera_index s)"
proof (induction xs arbitrary: s)
  case Nil
  then show ?case by simp
next
  case (Cons x xs)
  have "current_camera_index (snd (run (x # xs) s))
      = last_started (fst (run xs (snd (step x s)))) (current_camera_index (snd (step x s)))"
    unfolding run_snd_Cons by (rule Cons.IH)
  also have "\<dots> = last_started (fst (run xs (snd (step x s))))
      (last_started [fst (step x s)] (current_camera_index s))"
    by (simp only: step_index)
  also have "\<dots> = last_started (fst (run (x # xs) s)) (current_camera_index s)"
    unfolding run_fst_Cons by (rule last_started_Cons[symmetric])
  finally show ?case .
qed

text \<open>
  Claim C10: the recorded index is 0 on a fresh manager; after any sequence of session
  operations it is the index named by the last answer "started" (a start that found the
  session stopped and opened its device), and 0 when there is none, so only such a start
  updates it; \<^verbatim>\<open>get_status\<close> reports it as \<^verbatim>\<open>current_idx\<close>; \<^verbatim>\<open>stop\<close> leaves it unchanged
  and \<^verbatim>\<open>camera_on\<close> is false afterwards; a start whose device does not open (or whose
  constructor raises) leaves it unchanged; a start on a stopped session whose device
  opens sets it to the requested index.
\<close>

theorem current_index_is_last_started:
  "current_camera_index (init_state y f) = 0
   \<and> current_camera_index (snd (run xs (init_state y f)))
       = last_started (fst (run xs (init_state y f))) 0
   \<and> st_current_idx (get_status s) = current_camera_index s
   \<and> current_camera_index (snd (stop s)) = current_camera_index s
   \<and> st_camera_on (get_status (snd (stop s))) = False
   \<and> (oc \<noteq> Opened \<longrightarrow> current_camera_index (snd (start oc i s)) = current_camera_index s)
   \<and> (\<not> is_running s1 \<longrightarrow> current_camera_index (snd (start Opened i1 s1)) = i1)"
proof -
  have "current_camera_index (snd (run xs (init_state y f)))
       = last_started (fst (run xs (init_state y f))) 0"
    using run_index[of xs "init_state y f"] by (simp add: init_state_def)
  moreover have "oc \<noteq> Opened \<longrightarrow> current_camera_index (snd (start oc i s)) = current_camera_index s"
    by (cases oc) (simp_all add: start_def)
  moreover have "current_camera_index (snd (stop s)) = current_camera_index s"
    by (simp add: stop_def Let_def split: option.splits)
  moreover have "st_camera_on (get_status (snd (stop s))) = False"
    by (simp add: stop_def get_status_def Let_def split: option.splits)
  ultimately show ?thesis by (simp add: init_state_def get_status_def start_def)
qed

theorem current_index_is_last_started_witness:
  "current_camera_index (snd (run [OpStart Opened 1, OpStart Opened 3, OpStop, OpStart Unopened 2,
       OpGetStatus] (init_state True Absent))) = 1
   \<and> fst (run [OpStart Opened 1, OpStart Opened 3, OpStop, OpStart Unopened 2, OpGetStatus]
       (init_state True Absent))
     = [RControl (Inr \<lparr>success = True, message = Started 1\<rparr>),
        RControl (Inr \<lparr>success = True, message = AlreadyRunning\<rparr>),
        RControl (Inr \<lparr>success = True, message = Stopped\<rparr>),
        RControl (Inr \<lparr>success = False, message = ConnectFailed 2\<rparr>),
        RStatus \<lparr>st_camera_on = False, st_current_idx = 1, st_yolo_available = True,
                 st_detection_count = 0\<rparr>]
   \<and> current_camera_index (snd (start Unopened 2 running_on_0)) = 0
   \<and> current_camera_index (snd (start Opened 2 (init_state True Absent))) = 2"
proof -
  have r: "fst (run [OpStart Opened 1, OpStart Opened 3, OpStop, OpStart Unopened 2, OpGetStatus]
       (init_state True Absent))
     = [RControl (Inr \<lparr>success = True, message = Started 1\<rparr>),
        RControl (Inr \<lparr>success = True, message = AlreadyRunning\<rparr>),
        RControl (Inr \<lparr>success = True, message = Stopped\<rparr>),
        RControl (Inr \<lparr>success = False, message = ConnectFailed 2\<rparr>),
        RStatus \<lparr>st_camera_on = False, st_current_idx = 1, st_yolo_available = True,
                 st_detection_count = 0\<rparr>]"
    by (simp add: start_def stop_def get_status_def init_state_def)
  have i0: "current_camera_index running_on_0 = 0"
    by (simp add: running_on_0_def start_def init_state_def)
  have nr: "\<not> is_running (init_state True Absent)" by (simp add: init_state_def)
  from current_index_is_last_started[of True Absent
      "[OpStart Opened 1, OpStart Opened 3, OpStop, OpStart Unopened 2, OpGetStatus]"
      running_on_0 Unopened 2 "init_state True Absent" 2] r i0 nr
  show ?thesis by simp
qed

end
